theory Spec2Isabelle
  imports Complex_Main "HOL-Library.Multiset"
begin

section \<open>Python and numpy primitives used by \<open>phenotype.py\<close>\<close>

text \<open>
  Exceptions are values.  The first four are the ones the Python and numpy
  operations of the source can raise; the last three are named by the
  specification only and are raised nowhere in the source.
\<close>

datatype error =
    ValueError
  | IndexError
  | NameError
  | ZeroDivisionError
  | InvalidAlleleError
  | MissingParentError
  | PloidyMismatchError

text \<open>
  A computation either does not return (\<open>None\<close>), raises (\<open>Some (Inl e)\<close>)
  or returns a value (\<open>Some (Inr v)\<close>).
\<close>

type_synonym 'a outcome = "(error + 'a) option"

definition and_then :: "'a outcome \<Rightarrow> ('a \<Rightarrow> 'b outcome) \<Rightarrow> 'b outcome" where
  "and_then c f = (case c of None \<Rightarrow> None | Some (Inl e) \<Rightarrow> Some (Inl e) | Some (Inr v) \<Rightarrow> f v)"

definition raise_or :: "error + 'a \<Rightarrow> ('a \<Rightarrow> 'b outcome) \<Rightarrow> 'b outcome" where
  "raise_or r f = (case r of Inl e \<Rightarrow> Some (Inl e) | Inr v \<Rightarrow> f v)"

text \<open>
  \<open>xs[i]\<close> on a Python list or a one-dimensional numpy array: an index in
  \<open>[-len, 0)\<close> counts from the end, anything outside \<open>[-len, len)\<close> raises
  \<open>IndexError\<close>.
\<close>

definition py_pos :: "nat \<Rightarrow> int \<Rightarrow> nat option" where
  "py_pos n i =
     (if 0 \<le> i \<and> i < int n then Some (nat i)
      else if - int n \<le> i \<and> i < 0 then Some (nat (int n + i))
      else None)"

definition py_index :: "'a list \<Rightarrow> int \<Rightarrow> error + 'a" where
  "py_index xs i = (case py_pos (length xs) i of None \<Rightarrow> Inl IndexError | Some k \<Rightarrow> Inr (xs ! k))"

section \<open>Subtree sample enumeration\<close>

text \<open>
  The inner loop of \<open>obtain_sample_nodes\<close>:
  \<^verbatim>\<open>while child != -1: stack.append(child); child = right_sib_array[child]\<close>
\<close>

partial_function (option) push_siblings :: "int list \<Rightarrow> int \<Rightarrow> int list \<Rightarrow> int list outcome" where
  "push_siblings right_sib_array child stack =
     (if child \<noteq> - 1 then
        (case py_index right_sib_array child of
           Inl e \<Rightarrow> Some (Inl e)
         | Inr sib \<Rightarrow> push_siblings right_sib_array sib (stack @ [child]))
      else Some (Inr stack))"

text \<open>
  The outer loop \<^verbatim>\<open>while stack:\<close>.  The stack is a Python list: \<open>pop()\<close> takes
  the last element, \<open>append\<close> adds at the end.  In the leaf branch the source
  appends \<open>child\<close>, whose value there is \<open>-1\<close>.
\<close>

partial_function (option) sample_loop ::
  "int list \<Rightarrow> int list \<Rightarrow> int list \<Rightarrow> int list \<Rightarrow> int list outcome" where
  "sample_loop left_child_array right_sib_array stack sample_node =
     (if stack \<noteq> [] then
        (case py_index left_child_array (last stack) of
           Inl e \<Rightarrow> Some (Inl e)
         | Inr child \<Rightarrow>
             if child \<noteq> - 1 then
               (case push_siblings right_sib_array child (butlast stack) of
                  None \<Rightarrow> None
                | Some (Inl e) \<Rightarrow> Some (Inl e)
                | Some (Inr stack') \<Rightarrow> sample_loop left_child_array right_sib_array stack' sample_node)
             else sample_loop left_child_array right_sib_array (butlast stack) (sample_node @ [child]))
      else Some (Inr sample_node))"

declare push_siblings.simps [code]
declare sample_loop.simps [code]

definition obtain_sample_nodes :: "int \<Rightarrow> int list \<Rightarrow> int list \<Rightarrow> int list outcome" where
  "obtain_sample_nodes root_node left_child_array right_sib_array =
     sample_loop left_child_array right_sib_array [root_node] []"

text \<open>
  The same loop with a ghost variable: the list of the nodes popped from the
  stack, in the order they are popped.
\<close>

partial_function (option) visit_loop ::
  "int list \<Rightarrow> int list \<Rightarrow> int list \<Rightarrow> int list \<Rightarrow> int list outcome" where
  "visit_loop left_child_array right_sib_array stack visited =
     (if stack \<noteq> [] then
        (case py_index left_child_array (last stack) of
           Inl e \<Rightarrow> Some (Inl e)
         | Inr child \<Rightarrow>
             if child \<noteq> - 1 then
               (case push_siblings right_sib_array child (butlast stack) of
                  None \<Rightarrow> None
                | Some (Inl e) \<Rightarrow> Some (Inl e)
                | Some (Inr stack') \<Rightarrow>
                    visit_loop left_child_array right_sib_array stack' (visited @ [last stack]))
             else visit_loop left_child_array right_sib_array (butlast stack) (visited @ [last stack]))
      else Some (Inr visited))"

declare visit_loop.simps [code]

definition visited_nodes :: "int \<Rightarrow> int list \<Rightarrow> int list \<Rightarrow> int list outcome" where
  "visited_nodes root_node left_child_array right_sib_array =
     visit_loop left_child_array right_sib_array [root_node] []"

subsection \<open>The arrays as a graph\<close>

text \<open>
  The arrays as a graph: an edge from \<open>u\<close> to \<open>left_child[u]\<close> and to
  \<open>right_sib[u]\<close>, where these are not the null id.
\<close>

definition edge_list :: "int list \<Rightarrow> (int \<times> int) list" where
  "edge_list xs = filter (\<lambda>e. snd e \<noteq> - 1) (zip (map int [0..<length xs]) xs)"

definition tree_edges :: "int list \<Rightarrow> int list \<Rightarrow> (int \<times> int) set" where
  "tree_edges left_child_array right_sib_array =
     set (edge_list left_child_array) \<union> set (edge_list right_sib_array)"

definition well_formed :: "int list \<Rightarrow> int list \<Rightarrow> bool" where
  "well_formed left_child_array right_sib_array \<longleftrightarrow>
     length left_child_array = length right_sib_array \<and>
     list_all (\<lambda>v. - 1 \<le> v \<and> v < int (length left_child_array))
       (left_child_array @ right_sib_array)"

definition children_of :: "int list \<Rightarrow> int list \<Rightarrow> int \<Rightarrow> int list" where
  "children_of left_child_array right_sib_array p =
     (case py_index left_child_array p of
        Inl e \<Rightarrow> []
      | Inr child \<Rightarrow>
          (case push_siblings right_sib_array child [] of Some (Inr cs) \<Rightarrow> cs | _ \<Rightarrow> []))"

definition no_shared_children :: "int list \<Rightarrow> int list \<Rightarrow> bool" where
  "no_shared_children left_child_array right_sib_array \<longleftrightarrow>
     list_all (\<lambda>p. list_all (\<lambda>q. p = q \<or>
         set (children_of left_child_array right_sib_array (int p)) \<inter>
         set (children_of left_child_array right_sib_array (int q)) = {})
       [0..<length left_child_array]) [0..<length left_child_array]"

section \<open>Mutation resolution\<close>

text \<open>
  Python lists are objects: a store maps a reference to the list it names, and
  a function that mutates a list changes the store.
\<close>

type_synonym ref = nat

type_synonym store = "ref \<Rightarrow> int list"

text \<open>
  \<open>remove_list\<close>: \<^verbatim>\<open>for i in remove_nodes: sample_nodes.remove(i)\<close>.  The \<open>for\<close>
  loop reads \<open>remove_nodes\<close> by position: its iterator keeps an index \<open>k\<close> and
  stops when \<open>k\<close> reaches the current length of the list.  \<open>list.remove\<close>
  deletes the first occurrence and raises \<open>ValueError\<close> when there is none.
  When both parameters name the same object, the loop reads the list it is
  deleting from.
\<close>

function remove_loop :: "store \<Rightarrow> ref \<Rightarrow> ref \<Rightarrow> nat \<Rightarrow> error + store" where
  "remove_loop h sample_nodes remove_nodes k =
     (if k < length (h remove_nodes) then
        (if h remove_nodes ! k \<in> set (h sample_nodes) then
           remove_loop (h(sample_nodes := remove1 (h remove_nodes ! k) (h sample_nodes)))
             sample_nodes remove_nodes (Suc k)
         else Inl ValueError)
      else Inr h)"
  by pat_completeness auto
termination
  by (relation "measure (\<lambda>(h, sample_nodes, remove_nodes, k). length (h remove_nodes) - k)")
     (auto simp: length_remove1)

declare remove_loop.simps [simp del]

text \<open>\<open>return sample_nodes\<close>: the list the first parameter names after the loop.\<close>

definition remove_list :: "store \<Rightarrow> ref \<Rightarrow> ref \<Rightarrow> error + int list" where
  "remove_list h sample_nodes remove_nodes =
     (case remove_loop h sample_nodes remove_nodes 0 of
        Inl e \<Rightarrow> Inl e
      | Inr h' \<Rightarrow> Inr (h' sample_nodes))"

text \<open>A store with two different list objects, at the references 0 and 1.\<close>

definition two_objects :: "int list \<Rightarrow> int list \<Rightarrow> store" where
  "two_objects xs ys = (\<lambda>r. if r = 0 then xs else ys)"

text \<open>
  \<^verbatim>\<open>sorted(xs, key=..., reverse=True)\<close>: descending keys, and elements with equal
  keys keep their original order.
\<close>

fun insert_desc :: "('a \<Rightarrow> 'k::linorder) \<Rightarrow> 'a \<Rightarrow> 'a list \<Rightarrow> 'a list" where
  "insert_desc key x [] = [x]"
| "insert_desc key x (y # ys) =
     (if key y < key x then x # y # ys else y # insert_desc key x ys)"

definition sorted_reverse :: "('a \<Rightarrow> 'k::linorder) \<Rightarrow> 'a list \<Rightarrow> 'a list" where
  "sorted_reverse key xs = foldl (\<lambda>acc x. insert_desc key x acc) [] xs"

text \<open>
  The tskit objects the source reads.  Floating-point times and positions are
  idealised as reals; an allele state is a string.
\<close>

record mutation =
  node :: int
  derived_state :: string
  time :: real
  parent :: int

record site =
  mutations :: "mutation list"
  ancestral_state :: string
  position :: real

record tree =
  interval_left :: real
  interval_right :: real
  left_child_array :: "int list"
  right_sib_array :: "int list"

record tree_sequence =
  samples :: "int list"
  mutation_table :: "mutation list"
  site_table :: "site list"
  trees :: "tree list"

text \<open>
  \<open>ts.mutation(id)\<close> and \<open>ts.site(id)\<close>: tskit checks the id like a Python list
  index (a negative id counts back from the last row, so the null parent \<open>-1\<close>
  names the last mutation of the table) and raises \<open>IndexError\<close> out of bounds.
\<close>

definition ts_mutation :: "tree_sequence \<Rightarrow> int \<Rightarrow> error + mutation" where
  "ts_mutation ts ident = py_index (mutation_table ts) ident"

definition ts_site :: "tree_sequence \<Rightarrow> int \<Rightarrow> error + site" where
  "ts_site ts ident = py_index (site_table ts) ident"

text \<open>
  \<open>tree = ts.first(); tree.seek(loc)\<close>: the tree whose interval holds \<open>loc\<close>;
  tskit raises \<open>ValueError\<close> for a position outside the sequence.
\<close>

definition seek :: "tree_sequence \<Rightarrow> real \<Rightarrow> error + tree" where
  "seek ts loc =
     (case filter (\<lambda>t. interval_left t \<le> loc \<and> loc < interval_right t) (trees ts) of
        [] \<Rightarrow> Inl ValueError
      | t # _ \<Rightarrow> Inr t)"

text \<open>
  The loop of \<open>causal_mutation_sample_nodes\<close> over the sorted mutations.  At
  the call of \<open>remove_list\<close> the list \<open>sample_nodes\<close> is the local list of the
  resolver and \<open>remove_nodes\<close> is the list \<open>obtain_sample_nodes\<close> has just built:
  two different objects.
\<close>

fun resolve_mutations ::
  "tree_sequence \<Rightarrow> tree \<Rightarrow> string \<Rightarrow> mutation list \<Rightarrow> int list \<Rightarrow> int list outcome" where
  "resolve_mutations ts tree causal_allele [] sample_nodes = Some (Inr sample_nodes)"
| "resolve_mutations ts tree causal_allele (m # mutation_list) sample_nodes =
     (if derived_state m = causal_allele then
        and_then (obtain_sample_nodes (node m) (left_child_array tree) (right_sib_array tree))
          (\<lambda>keep_nodes.
             resolve_mutations ts tree causal_allele mutation_list (sample_nodes @ keep_nodes))
      else
        raise_or (ts_mutation ts (parent m))
          (\<lambda>pm.
             if derived_state pm = causal_allele then
               and_then (obtain_sample_nodes (node m) (left_child_array tree) (right_sib_array tree))
                 (\<lambda>remove_nodes.
                    raise_or (remove_list (two_objects sample_nodes remove_nodes) 0 1)
                      (\<lambda>sample_nodes'.
                         resolve_mutations ts tree causal_allele mutation_list sample_nodes'))
             else resolve_mutations ts tree causal_allele mutation_list sample_nodes))"

definition causal_mutation_sample_nodes ::
  "tree_sequence \<Rightarrow> tree \<Rightarrow> site \<Rightarrow> string \<Rightarrow> int list outcome" where
  "causal_mutation_sample_nodes ts tree site causal_allele =
     resolve_mutations ts tree causal_allele (sorted_reverse time (mutations site)) []"




section \<open>Genetic values of nodes\<close>

text \<open>\<open>np.max\<close> raises \<open>ValueError\<close> on an empty array.\<close>

definition np_max :: "int list \<Rightarrow> error + int" where
  "np_max xs = (case xs of [] \<Rightarrow> Inl ValueError | x # ys \<Rightarrow> Inr (fold max ys x))"

definition np_zeros :: "int \<Rightarrow> error + real list" where
  "np_zeros n = (if n < 0 then Inl ValueError else Inr (replicate (nat n) 0))"

text \<open>\<open>G[idx]\<close> with a list of integer indices (a gather).\<close>

fun np_take :: "'a list \<Rightarrow> int list \<Rightarrow> error + 'a list" where
  "np_take G [] = Inr []"
| "np_take G (i # idx) =
     (case py_index G i of
        Inl e \<Rightarrow> Inl e
      | Inr v \<Rightarrow> (case np_take G idx of Inl e \<Rightarrow> Inl e | Inr vs \<Rightarrow> Inr (v # vs)))"

text \<open>
  \<open>G[idx] = vals\<close> (a scatter): the cells are written one after the other, so
  for a repeated index the last value stays.
\<close>

fun np_put :: "'a list \<Rightarrow> int list \<Rightarrow> 'a list \<Rightarrow> 'a list" where
  "np_put G (i # idx) (v # vals) =
     (case py_pos (length G) i of None \<Rightarrow> G | Some k \<Rightarrow> np_put (G[k := v]) idx vals)"
| "np_put G idx vals = G"

text \<open>
  \<open>G[idx] += beta\<close> is \<open>G[idx] = G[idx] + beta\<close>: the values are gathered
  first, so a cell named several times by \<open>idx\<close> receives \<open>beta\<close> once.
\<close>

definition np_iadd_at :: "real list \<Rightarrow> int list \<Rightarrow> real \<Rightarrow> error + real list" where
  "np_iadd_at G idx beta =
     (case np_take G idx of
        Inl e \<Rightarrow> Inl e
      | Inr vals \<Rightarrow> Inr (np_put G idx (map (\<lambda>v. v + beta) vals)))"

definition py_truediv :: "nat \<Rightarrow> nat \<Rightarrow> error + real" where
  "py_truediv a b = (if b = 0 then Inl ZeroDivisionError else Inr (real a / real b))"

text \<open>
  The name \<open>sim_beta\<close> is bound nowhere in the module (the comment above the
  call says that no such function is written), so evaluating the call raises
  \<open>NameError\<close>.
\<close>

definition sim_beta :: "real outcome" where
  "sim_beta = Some (Inl NameError)"

text \<open>
  The body of the loop over \<open>enumerate(location)\<close>.  The state is
  \<open>(G, beta_list, frequency)\<close>.
\<close>

definition site_step ::
  "tree_sequence \<Rightarrow> int list \<Rightarrow> string list \<Rightarrow> real list \<times> real list \<times> real list \<Rightarrow>
   nat \<Rightarrow> real \<Rightarrow> (real list \<times> real list \<times> real list) outcome" where
  "site_step ts site_id causal_allele st i loc =
     (case st of (G, beta_list, frequency) \<Rightarrow>
        raise_or (seek ts loc) (\<lambda>tree.
        raise_or (py_index site_id (int i)) (\<lambda>sid.
        raise_or (ts_site ts sid) (\<lambda>site.
        raise_or (py_index causal_allele (int i)) (\<lambda>allele.
        and_then (causal_mutation_sample_nodes ts tree site allele) (\<lambda>causal_sample_nodes.
        raise_or (py_truediv (length causal_sample_nodes) (length (samples ts))) (\<lambda>freq_allele.
        and_then sim_beta (\<lambda>beta.
        raise_or (np_iadd_at G causal_sample_nodes beta) (\<lambda>G'.
          Some (Inr (G', beta_list[i := beta], frequency[i := freq_allele])))))))))))"

fun site_loop ::
  "tree_sequence \<Rightarrow> int list \<Rightarrow> string list \<Rightarrow> real list \<times> real list \<times> real list \<Rightarrow>
   nat \<Rightarrow> real list \<Rightarrow> (real list \<times> real list \<times> real list) outcome" where
  "site_loop ts site_id causal_allele st i [] = Some (Inr st)"
| "site_loop ts site_id causal_allele st i (loc # location) =
     and_then (site_step ts site_id causal_allele st i loc)
       (\<lambda>st'. site_loop ts site_id causal_allele st' (Suc i) location)"

text \<open>
  \<open>node_genetic_value\<close>.  The parameters \<open>trait_mean\<close>, \<open>trait_sd\<close>, \<open>rng\<close> and
  \<open>model\<close> are read nowhere in the body and are left out; the type test on
  \<open>ts\<close> is the type of the model.
\<close>

definition node_genetic_value ::
  "tree_sequence \<Rightarrow> int list \<Rightarrow> real list \<Rightarrow> string list \<Rightarrow>
   (real list \<times> real list \<times> real list) outcome" where
  "node_genetic_value ts site_id location causal_allele =
     raise_or (np_max (samples ts)) (\<lambda>top.
     raise_or (np_zeros (top + 1)) (\<lambda>G.
       site_loop ts site_id causal_allele
         (G, replicate (length location) 0, replicate (length location) 0) 0 location))"

section \<open>Genetic values of individuals\<close>

text \<open>The slices \<open>G[::2]\<close> and \<open>G[1::2]\<close>.\<close>

fun stride2 :: "'a list \<Rightarrow> 'a list" where
  "stride2 (x # y # zs) = x # stride2 zs"
| "stride2 xs = xs"

text \<open>
  \<open>a + b\<close> on one-dimensional numpy arrays: elementwise on equal lengths, an
  array of length one is broadcast along the other, any other pair of lengths
  raises \<open>ValueError\<close>.
\<close>

definition np_add :: "real list \<Rightarrow> real list \<Rightarrow> error + real list" where
  "np_add a b =
     (if length a = length b then Inr (map2 (+) a b)
      else if length a = 1 then Inr (map (\<lambda>y. hd a + y) b)
      else if length b = 1 then Inr (map (\<lambda>x. x + hd b) a)
      else Inl ValueError)"

definition individual_genetic :: "tree_sequence \<Rightarrow> real list \<Rightarrow> error + real list" where
  "individual_genetic ts G =
     (case np_take G (samples ts) of
        Inl e \<Rightarrow> Inl e
      | Inr G' \<Rightarrow> np_add (stride2 G') (stride2 (drop 1 G')))"

section \<open>Concrete inputs\<close>

text \<open>
  A tree on the nodes 0, 1, 2: node 2 is the root, its children are the
  leaves 0 and 1 (\<open>left_child[2] = 0\<close>, \<open>right_sib[0] = 1\<close>).
\<close>

definition cherry :: tree where
  "cherry = \<lparr>interval_left = 0, interval_right = 1,
     left_child_array = [- 1, - 1, 0], right_sib_array = [1, - 1, - 1]\<rparr>"

definition mut_root_B :: mutation where
  "mut_root_B = \<lparr>node = 2, derived_state = ''B'', time = 2, parent = - 1\<rparr>"

definition mut_leaf_A :: mutation where
  "mut_leaf_A = \<lparr>node = 0, derived_state = ''A'', time = 1, parent = 0\<rparr>"


definition mut_leaf_T :: mutation where
  "mut_leaf_T = \<lparr>node = 0, derived_state = ''T'', time = 2, parent = - 1\<rparr>"

definition mut_leaf_G :: mutation where
  "mut_leaf_G = \<lparr>node = 1, derived_state = ''G'', time = 1, parent = - 1\<rparr>"

definition site_of :: "mutation list \<Rightarrow> site" where
  "site_of ms = \<lparr>mutations = ms, ancestral_state = ''A'', position = 0\<rparr>"

text \<open>A tree sequence with the one tree \<open>cherry\<close>, the samples 0 and 1 and one site.\<close>

definition ts_of :: "mutation list \<Rightarrow> tree_sequence" where
  "ts_of ms = \<lparr>samples = [0, 1], mutation_table = ms, site_table = [site_of ms], trees = [cherry]\<rparr>"

definition ts_samples :: "int list \<Rightarrow> tree_sequence" where
  "ts_samples ids = \<lparr>samples = ids, mutation_table = [], site_table = [], trees = []\<rparr>"

text \<open>
  A tree on five nodes: the root 4 has the children 3 and 2, and node 3 has
  the children 0 and 1.
\<close>

definition nested :: tree where
  "nested = \<lparr>interval_left = 0, interval_right = 1,
     left_child_array = [- 1, - 1, - 1, 0, 3], right_sib_array = [1, - 1, - 1, 2, - 1]\<rparr>"

lemmas cherry_defs = cherry_def site_of_def ts_of_def

lemmas eval_defs =
  causal_mutation_sample_nodes_def sorted_reverse_def and_then_def raise_or_def
  obtain_sample_nodes_def sample_loop.simps push_siblings.simps py_index_def py_pos_def
  ts_mutation_def ts_site_def seek_def remove_list_def remove_loop.simps two_objects_def

section \<open>The subtree enumerator returns the null id for every leaf\<close>

lemma push_siblings_error:
  assumes "push_siblings rs c st = Some y"
  shows "\<forall>e. y = Inl e \<longrightarrow> e = IndexError"
  by (rule push_siblings.raw_induct
        [where P = "\<lambda>rs c st y. \<forall>e. y = Inl e \<longrightarrow> e = IndexError", OF _ assms])
     (auto simp: py_index_def split: if_splits sum.splits option.splits)

lemma sample_loop_error:
  assumes "sample_loop lc rs st acc = Some y"
  shows "\<forall>e. y = Inl e \<longrightarrow> e = IndexError"
  by (rule sample_loop.raw_induct
        [where P = "\<lambda>lc rs st acc y. \<forall>e. y = Inl e \<longrightarrow> e = IndexError", OF _ assms])
     (auto simp: py_index_def split: if_splits sum.splits option.splits dest: push_siblings_error)

lemma obtain_sample_nodes_error:
  "obtain_sample_nodes r lc rs = Some (Inl e) \<Longrightarrow> e = IndexError"
  unfolding obtain_sample_nodes_def by (auto dest: sample_loop_error)

lemma sample_loop_null_ids:
  assumes "sample_loop lc rs st acc = Some y"
  shows "\<forall>xs. y = Inr xs \<longrightarrow> set xs \<subseteq> set acc \<union> {- 1}"
proof (rule sample_loop.raw_induct
        [where P = "\<lambda>lc rs st acc y. \<forall>xs. y = Inr xs \<longrightarrow> set xs \<subseteq> set acc \<union> {- 1}", OF _ assms])
  fix f lc rs st acc y
  assume IH: "\<And>lc rs st acc y. f lc rs st acc = Some y \<Longrightarrow>
                \<forall>xs. y = Inr xs \<longrightarrow> set xs \<subseteq> set acc \<union> {- 1}"
    and step: "(if st \<noteq> [] then
        (case py_index lc (last st) of
           Inl e \<Rightarrow> Some (Inl e)
         | Inr child \<Rightarrow>
             if child \<noteq> - 1 then
               (case push_siblings rs child (butlast st) of
                  None \<Rightarrow> None
                | Some (Inl e) \<Rightarrow> Some (Inl e)
                | Some (Inr stack') \<Rightarrow> f lc rs stack' acc)
             else f lc rs (butlast st) (acc @ [child]))
      else Some (Inr acc)) = Some y"
  show "\<forall>xs. y = Inr xs \<longrightarrow> set xs \<subseteq> set acc \<union> {- 1}"
  proof (intro allI impI)
    fix xs assume y: "y = Inr xs"
    show "set xs \<subseteq> set acc \<union> {- 1}"
    proof (cases "st = []")
      case True
      with step y show ?thesis by auto
    next
      case False
      show ?thesis
      proof (cases "py_index lc (last st)")
        case (Inl e)
        with step y False show ?thesis by simp
      next
        case (Inr child)
        show ?thesis
        proof (cases "child = - 1")
          case True
          with step False Inr have "f lc rs (butlast st) (acc @ [- 1]) = Some y" by simp
          from IH [OF this] y show ?thesis by auto
        next
          case False
          with step y \<open>st \<noteq> []\<close> Inr obtain stack' where "f lc rs stack' acc = Some y"
            by (auto split: option.splits sum.splits)
          from IH [OF this] y show ?thesis by auto
        qed
      qed
    qed
  qed
qed

lemma obtain_sample_nodes_null_ids:
  assumes "obtain_sample_nodes r lc rs = Some (Inr xs)"
  shows "set xs \<subseteq> {- 1}"
  using sample_loop_null_ids [OF assms [unfolded obtain_sample_nodes_def]] by simp

text \<open>
  C1 (the code departs from the claim).  The claim: the enumerator returns
  exactly the leaves below the root, and the singleton of the root when the
  root is a leaf.  The source appends \<open>child\<close>, which is \<open>-1\<close> in the leaf
  branch, where the sibling traversal \<open>update_node_values_array_access\<close> uses
  \<open>parent\<close>: for the one-node tree the result is \<open>[-1]\<close>, not \<open>[0]\<close>, and
  below the root of \<open>cherry\<close> it is \<open>[-1, -1]\<close>, not the leaves 0 and 1.
\<close>

theorem obtain_sample_nodes_returns_null_ids:
  "obtain_sample_nodes 0 [- 1] [- 1] = Some (Inr [- 1]) \<and>
   obtain_sample_nodes 2 (left_child_array cherry) (right_sib_array cherry) = Some (Inr [- 1, - 1])"
  by (simp add: eval_defs cherry_def)

section \<open>The removal step\<close>

lemma mset_fold_remove1:
  "mset rs \<subseteq># mset xs \<Longrightarrow> mset (fold remove1 rs xs) = mset xs - mset rs"
proof (induction rs arbitrary: xs)
  case Nil
  then show ?case by simp
next
  case (Cons i rs)
  then have "i \<in> set xs"
    by (metis list.set_intros(1) mset_subset_eqD set_mset_mset)
  then have "mset rs \<subseteq># mset (remove1 i xs)"
    using Cons.prems by (simp add: insert_subset_eq_iff)
  from Cons.IH [OF this] show ?case by simp
qed

lemma add_mset_subset_mset_iff:
  "add_mset i M \<subseteq># mset xs \<longleftrightarrow> i \<in> set xs \<and> M \<subseteq># mset (remove1 i xs)"
  by (auto simp: insert_subset_eq_iff dest: mset_subset_eqD)

text \<open>On two different objects the loop deletes the elements still to read.\<close>

lemma remove_loop_separate:
  "s \<noteq> r \<Longrightarrow>
   remove_loop h s r k =
     (if mset (drop k (h r)) \<subseteq># mset (h s)
      then Inr (h(s := fold remove1 (drop k (h r)) (h s)))
      else Inl ValueError)"
proof (induction h s r k rule: remove_loop.induct)
  case (1 h s r k)
  show ?case
  proof (cases "k < length (h r)")
    case False
    then show ?thesis by (subst remove_loop.simps) simp
  next
    case True
    let ?i = "h r ! k"
    have d: "drop k (h r) = ?i # drop (Suc k) (h r)"
      using True by (simp add: Cons_nth_drop_Suc)
    show ?thesis
    proof (cases "?i \<in> set (h s)")
      case False
      then show ?thesis
        using True d by (subst remove_loop.simps) (simp add: add_mset_subset_mset_iff)
    next
      case mem: True
      let ?h = "h(s := remove1 ?i (h s))"
      have "remove_loop h s r k = remove_loop ?h s r (Suc k)"
        using True mem by (subst remove_loop.simps) simp
      also have "\<dots> = (if mset (drop (Suc k) (?h r)) \<subseteq># mset (?h s)
          then Inr (?h(s := fold remove1 (drop (Suc k) (?h r)) (?h s)))
          else Inl ValueError)"
        using "1.IH" [OF True mem "1.prems"] .
      also have "?h r = h r" using "1.prems" by simp
      also have "?h s = remove1 ?i (h s)" by simp
      also have "?h(s := fold remove1 (drop (Suc k) (h r)) (remove1 ?i (h s)))
          = h(s := fold remove1 (drop (Suc k) (h r)) (remove1 ?i (h s)))"
        by simp
      finally have step: "remove_loop h s r k =
          (if mset (drop (Suc k) (h r)) \<subseteq># mset (remove1 ?i (h s))
           then Inr (h(s := fold remove1 (drop (Suc k) (h r)) (remove1 ?i (h s))))
           else Inl ValueError)" .
      have sub: "mset (drop k (h r)) \<subseteq># mset (h s) \<longleftrightarrow>
          mset (drop (Suc k) (h r)) \<subseteq># mset (remove1 ?i (h s))"
        unfolding d using mem by (simp add: add_mset_subset_mset_iff)
      have fold: "fold remove1 (drop k (h r)) (h s) =
          fold remove1 (drop (Suc k) (h r)) (remove1 ?i (h s))"
        unfolding d by simp
      show ?thesis unfolding sub fold by (rule step)
    qed
  qed
qed

lemma remove_list_separate:
  "s \<noteq> r \<Longrightarrow>
   remove_list h s r =
     (if mset (h r) \<subseteq># mset (h s) then Inr (fold remove1 (h r) (h s)) else Inl ValueError)"
  by (simp add: remove_list_def remove_loop_separate)


lemma remove_loop_error: "remove_loop h s r k = Inl e \<Longrightarrow> e = ValueError"
proof (induction h s r k rule: remove_loop.induct)
  case (1 h s r k)
  from "1.prems" show ?case
    by (subst (asm) remove_loop.simps) (auto split: if_splits dest: "1.IH")
qed

lemma remove_list_error: "remove_list h s r = Inl e \<Longrightarrow> e = ValueError"
  by (auto simp: remove_list_def split: sum.splits dest: remove_loop_error)



text \<open>
  C9 (amended).  When \<open>sample_nodes\<close> and \<open>remove_nodes\<close> are two different
  list objects, \<open>remove_list\<close> deletes one occurrence (the first) of each
  element of \<open>remove_nodes\<close> from \<open>sample_nodes\<close>, one after the other, and
  raises \<open>ValueError\<close> as soon as an element to delete is no longer present:
  it returns exactly when \<open>remove_nodes\<close> is contained in \<open>sample_nodes\<close> as a
  multiset, and the result is then the multiset difference.
\<close>

theorem remove_list_separate_objects:
  "sample_nodes \<noteq> remove_nodes \<longrightarrow>
   (mset (h remove_nodes) \<subseteq># mset (h sample_nodes) \<longrightarrow>
      remove_list h sample_nodes remove_nodes
        = Inr (fold remove1 (h remove_nodes) (h sample_nodes)) \<and>
      mset (fold remove1 (h remove_nodes) (h sample_nodes))
        = mset (h sample_nodes) - mset (h remove_nodes)) \<and>
   (\<not> mset (h remove_nodes) \<subseteq># mset (h sample_nodes) \<longrightarrow>
      remove_list h sample_nodes remove_nodes = Inl ValueError)"
  by (simp add: remove_list_separate mset_fold_remove1)

theorem remove_list_separate_objects_witness:
  "(0 :: ref) \<noteq> 1 \<and>
   mset [3, 5 :: int] \<subseteq># mset [3, 4, 3, 5] \<and>
   remove_list (two_objects [3, 4, 3, 5] [3, 5]) 0 1 = Inr [4, 3] \<and>
   \<not> mset [4, 4 :: int] \<subseteq># mset [3, 4, 3, 5] \<and>
   remove_list (two_objects [3, 4, 3, 5] [4, 4]) 0 1 = Inl ValueError"
  using remove_list_separate_objects [of 0 1 "two_objects [3, 4, 3, 5] [3, 5]"]
    remove_list_separate_objects [of 0 1 "two_objects [3, 4, 3, 5] [4, 4]"]
  by (simp add: two_objects_def)

text \<open>
  C9, the claim as stated fails: called with the same list object
  \<open>[1, 2, 3, 4]\<close> for both parameters, the loop removes 1, reads position 1 of
  the shortened list, which holds 3, removes it and stops.  It returns
  \<open>[2, 4]\<close> and does not raise, where one occurrence of each of the four
  elements removed would leave the empty list.
\<close>

theorem remove_list_same_object_counterexample:
  "remove_list (\<lambda>r. [1, 2, 3, 4]) 0 0 = Inr [2, 4] \<and>
   mset [1, 2, 3, 4 :: int] \<subseteq># mset [1, 2, 3, 4] \<and>
   mset [2, 4 :: int] \<noteq> mset [1, 2, 3, 4] - mset [1, 2, 3, 4]"
  by (simp add: remove_list_def remove_loop.simps)

section \<open>The mutation resolver\<close>

lemma ts_mutation_error: "ts_mutation ts i = Inl e \<Longrightarrow> e = IndexError"
  by (auto simp: ts_mutation_def py_index_def split: option.splits)

lemma resolve_mutations_error:
  "resolve_mutations ts tree a ms acc = Some (Inl e) \<Longrightarrow> e = IndexError \<or> e = ValueError"
proof (induction ms arbitrary: acc)
  case Nil
  then show ?case by simp
next
  case (Cons m ms)
  then show ?case
    by (auto simp: and_then_def raise_or_def split: if_splits option.splits sum.splits
        dest: obtain_sample_nodes_error remove_list_error ts_mutation_error)
qed





text \<open>
  C2 (the code departs from the claim).  The claim: with a mutation to \<open>B\<close> on
  the internal node X and a back mutation to \<open>A\<close> on its child Y, resolving
  \<open>B\<close> returns the samples under X without those under Y.  On \<open>cherry\<close> with
  X = 2 and Y = 0 that is the sample 1; the source returns \<open>[-1]\<close>, because
  \<open>obtain_sample_nodes\<close> hands it null ids instead of leaves.
\<close>

theorem back_mutation_returns_null_id:
  "causal_mutation_sample_nodes (ts_of [mut_root_B, mut_leaf_A]) cherry
     (site_of [mut_root_B, mut_leaf_A]) ''B'' = Some (Inr [- 1])"
  by (simp add: eval_defs cherry_defs mut_root_B_def mut_leaf_A_def)

text \<open>
  C5 (amended).  The source has no check of the causal allele against the
  states of the site and raises \<open>InvalidAlleleError\<close> nowhere: the resolver
  never fails with that error, whatever the site and the allele.
\<close>

theorem resolver_never_raises_invalid_allele:
  "causal_mutation_sample_nodes ts tree site causal_allele \<noteq> Some (Inl InvalidAlleleError)"
  unfolding causal_mutation_sample_nodes_def
  using resolve_mutations_error by fastforce

text \<open>
  C5, the claim as stated fails: the allele \<open>C\<close> is neither the ancestral state
  nor the derived state of a mutation of the site, and the resolver returns
  the empty list.
\<close>

theorem absent_allele_counterexample:
  "''C'' \<notin> set (map derived_state (mutations (site_of [mut_root_B]))) \<and>
   ''C'' \<noteq> ancestral_state (site_of [mut_root_B]) \<and>
   causal_mutation_sample_nodes (ts_of [mut_root_B]) cherry (site_of [mut_root_B]) ''C'' = Some (Inr [])"
  by (simp add: eval_defs cherry_defs mut_root_B_def)

section \<open>Frequencies\<close>














section \<open>Accumulation over the causal sites\<close>

lemma site_step_no_result: "site_step ts site_id causal_allele st i loc \<noteq> Some (Inr r)"
  by (auto simp: site_step_def sim_beta_def and_then_def raise_or_def
      split: prod.splits sum.splits option.splits)

lemma fold_max_nonneg: "\<forall>s\<in>set (x # xs). 0 \<le> s \<Longrightarrow> (0::int) \<le> fold max xs x"
  by (induction xs arbitrary: x) auto

text \<open>
  The step \<open>G[idx] += beta\<close> by itself adds \<open>beta\<close> once for every index when
  the indices are pairwise different positions of \<open>G\<close>.
\<close>

lemma sum_list_update_real:
  "k < length G \<Longrightarrow> sum_list (G[k := v]) = sum_list G + v - (G ! k :: real)"
proof (induction G arbitrary: k)
  case Nil
  then show ?case by simp
next
  case (Cons x G)
  then show ?case by (cases k) simp_all
qed

lemma np_take_valid:
  "\<forall>i\<in>set idx. 0 \<le> i \<and> i < int (length G) \<Longrightarrow> np_take G idx = Inr (map (\<lambda>i. G ! nat i) idx)"
  by (induction idx) (simp_all add: py_index_def py_pos_def)

lemma np_put_sum:
  "distinct idx \<Longrightarrow> \<forall>i\<in>set idx. 0 \<le> i \<and> i < int (length G) \<Longrightarrow>
   sum_list (np_put G idx (map (\<lambda>i. G ! nat i + beta) idx)) = sum_list G + beta * real (length idx)"
proof (induction idx arbitrary: G)
  case Nil
  then show ?case by simp
next
  case (Cons i idx)
  let ?G = "G[nat i := G ! nat i + beta]"
  have i: "0 \<le> i" "i < int (length G)" using Cons.prems by auto
  have same: "map (\<lambda>j. G ! nat j + beta) idx = map (\<lambda>j. ?G ! nat j + beta) idx"
  proof (rule map_cong [OF refl])
    fix j assume "j \<in> set idx"
    with Cons.prems have "j \<noteq> i" "0 \<le> j" by auto
    with i have "nat j \<noteq> nat i" by simp
    then show "G ! nat j + beta = ?G ! nat j + beta" by simp
  qed
  have "sum_list (np_put ?G idx (map (\<lambda>j. ?G ! nat j + beta) idx)) = sum_list ?G + beta * real (length idx)"
    using Cons.prems by (intro Cons.IH) auto
  moreover have "sum_list ?G = sum_list G + beta" using i by (simp add: sum_list_update_real)
  moreover have "np_put G (i # idx) (map (\<lambda>j. G ! nat j + beta) (i # idx)) =
                 np_put ?G idx (map (\<lambda>j. ?G ! nat j + beta) idx)"
    using i by (simp add: py_pos_def same [symmetric])
  ultimately show ?case by (simp add: algebra_simps)
qed

lemma np_iadd_at_sum:
  assumes "distinct idx" "\<forall>i\<in>set idx. 0 \<le> i \<and> i < int (length G)"
  shows "\<exists>G'. np_iadd_at G idx beta = Inr G' \<and> sum_list G' = sum_list G + beta * real (length idx)"
  using assms np_put_sum [OF assms, of beta]
  by (simp add: np_iadd_at_def np_take_valid comp_def)

text \<open>
  C3 (the code departs from the claim).  The claim: after the accumulation
  step of one site, from a zero array, the entries of \<open>G\<close> sum to \<open>beta\<close> times
  the number of carriers.  For the site with one mutation to \<open>B\<close> on the root
  of \<open>cherry\<close> the carriers resolved by the source are \<open>[-1, -1]\<close>; the step
  \<open>G[causal_sample_nodes] += beta\<close> with \<open>beta = 1\<close> then leaves \<open>[0, 1]\<close>, of
  sum 1 and not 2; and \<open>node_genetic_value\<close> does not reach the step, it
  raises \<open>NameError\<close> at \<open>sim_beta\<close>.
\<close>

theorem accumulation_step_breaks_sum_law:
  "causal_mutation_sample_nodes (ts_of [mut_root_B]) cherry (site_of [mut_root_B]) ''B''
     = Some (Inr [- 1, - 1]) \<and>
   np_zeros (2 :: int) = Inr [0, 0] \<and>
   np_iadd_at [0, 0] [- 1, - 1] 1 = Inr [0, 1] \<and>
   sum_list [0, 1 :: real] \<noteq> 1 * real (length [- 1, - 1 :: int]) \<and>
   node_genetic_value (ts_of [mut_root_B]) [0] [0] [''B''] = Some (Inl NameError)"
  by (simp add: eval_defs cherry_defs mut_root_B_def np_zeros_def np_iadd_at_def node_genetic_value_def
      np_max_def site_step_def py_truediv_def sim_beta_def numeral_2_eq_2)

text \<open>
  C10 (amended).  For a non-empty list of causal sites \<open>node_genetic_value\<close>
  never returns a result.  When the tree sequence has samples, the first
  position is found by \<open>seek\<close>, the first site id and causal allele are read
  and the resolver returns for the first site, the failure is the \<open>NameError\<close>
  of \<open>sim_beta\<close>; an error raised before that point is the one that surfaces.
\<close>

theorem node_genetic_value_never_returns:
  "node_genetic_value ts site_id (loc # location) causal_allele \<noteq> Some (Inr r) \<and>
   (samples ts \<noteq> [] \<and> (\<forall>s\<in>set (samples ts). 0 \<le> s) \<and> seek ts loc = Inr tree \<and>
    py_index site_id 0 = Inr k \<and> ts_site ts k = Inr site \<and> py_index causal_allele 0 = Inr a \<and>
    causal_mutation_sample_nodes ts tree site a = Some (Inr c) \<longrightarrow>
    node_genetic_value ts site_id (loc # location) causal_allele = Some (Inl NameError))"
proof (intro conjI impI)
  show "node_genetic_value ts site_id (loc # location) causal_allele \<noteq> Some (Inr r)"
    using site_step_no_result
    by (auto simp: node_genetic_value_def and_then_def raise_or_def split: sum.splits option.splits)
next
  assume h: "samples ts \<noteq> [] \<and> (\<forall>s\<in>set (samples ts). 0 \<le> s) \<and> seek ts loc = Inr tree \<and>
    py_index site_id 0 = Inr k \<and> ts_site ts k = Inr site \<and> py_index causal_allele 0 = Inr a \<and>
    causal_mutation_sample_nodes ts tree site a = Some (Inr c)"
  then obtain x xs where xs: "samples ts = x # xs" by (cases "samples ts") auto
  have "0 \<le> fold max xs x" using h xs fold_max_nonneg by metis
  then show "node_genetic_value ts site_id (loc # location) causal_allele = Some (Inl NameError)"
    using h xs
    by (simp add: node_genetic_value_def np_max_def np_zeros_def raise_or_def and_then_def
        site_step_def py_truediv_def sim_beta_def)
qed

theorem node_genetic_value_never_returns_witness:
  "samples (ts_of [mut_root_B]) = [0, 1] \<and>
   seek (ts_of [mut_root_B]) 0 = Inr cherry \<and> py_index [0 :: int] 0 = Inr 0 \<and>
   ts_site (ts_of [mut_root_B]) 0 = Inr (site_of [mut_root_B]) \<and> py_index [''B''] 0 = Inr ''B'' \<and>
   causal_mutation_sample_nodes (ts_of [mut_root_B]) cherry (site_of [mut_root_B]) ''B''
     = Some (Inr [- 1, - 1]) \<and>
   node_genetic_value (ts_of [mut_root_B]) [0] [0] [''B''] = Some (Inl NameError)"
proof -
  have h: "samples (ts_of [mut_root_B]) \<noteq> [] \<and> (\<forall>s\<in>set (samples (ts_of [mut_root_B])). 0 \<le> s) \<and>
   seek (ts_of [mut_root_B]) 0 = Inr cherry \<and> py_index [0 :: int] 0 = Inr 0 \<and>
   ts_site (ts_of [mut_root_B]) 0 = Inr (site_of [mut_root_B]) \<and> py_index [''B''] 0 = Inr ''B'' \<and>
   causal_mutation_sample_nodes (ts_of [mut_root_B]) cherry (site_of [mut_root_B]) ''B''
     = Some (Inr [- 1, - 1])"
    by (simp add: eval_defs cherry_defs mut_root_B_def)
  from node_genetic_value_never_returns
    [of "ts_of [mut_root_B]" "[0]" 0 "[]" "[''B'']" "([], [], [])" cherry 0 "site_of [mut_root_B]" "''B''" "[- 1, - 1]"]
    h show ?thesis by (simp add: cherry_defs)
qed

text \<open>
  C10, the claim as stated fails: a site with two independent mutations, to
  \<open>T\<close> (the older) and to \<open>G\<close>, and the causal allele \<open>G\<close>.  The mutation to \<open>T\<close>
  has the null parent \<open>-1\<close>, \<open>ts.mutation(-1)\<close> is the last mutation of the
  table, whose derived state is \<open>G\<close>, so the resolver removes from the empty
  list and \<open>node_genetic_value\<close> fails with \<open>ValueError\<close> before it reaches
  \<open>sim_beta\<close>.
\<close>

theorem node_genetic_value_counterexample:
  "node_genetic_value (ts_of [mut_leaf_T, mut_leaf_G]) [0] [0] [''G''] = Some (Inl ValueError)"
  by (simp add: eval_defs cherry_defs mut_leaf_T_def mut_leaf_G_def node_genetic_value_def np_max_def np_zeros_def
      site_step_def numeral_2_eq_2)

section \<open>Reduction to individuals\<close>

lemma length_stride2: "length (stride2 xs) = (length xs + 1) div 2"
  by (induction xs rule: stride2.induct) simp_all

lemma nth_stride2: "i < length (stride2 xs) \<Longrightarrow> stride2 xs ! i = xs ! (2 * i)"
proof (induction xs arbitrary: i rule: stride2.induct)
  case (1 x y zs)
  then show ?case by (cases i) simp_all
qed simp_all

lemma np_add_error: "np_add a b = Inl e \<Longrightarrow> e = ValueError"
  by (auto simp: np_add_def split: if_splits)

lemma np_take_error: "np_take G idx = Inl e \<Longrightarrow> e = IndexError"
  by (induction idx) (auto simp: py_index_def split: option.splits sum.splits)

text \<open>
  C6.  When the values gathered at the sample ids, \<open>g = G[ts.samples()]\<close>,
  have even length, \<open>individual_genetic\<close> returns one value for each pair of
  genome copies, the value of individual \<open>i\<close> being \<open>g[2i] + g[2i+1]\<close>; the
  values \<open>[1, 3, 2, 4]\<close> give \<open>[4, 6]\<close>.
\<close>

theorem individual_genetic_sums_pairs:
  "(np_take G (samples ts) = Inr g \<and> even (length g) \<longrightarrow>
      (\<exists>r. individual_genetic ts G = Inr r \<and> length r = length g div 2 \<and>
           (\<forall>i < length r. r ! i = g ! (2 * i) + g ! (2 * i + 1)))) \<and>
   individual_genetic (ts_samples [0, 1, 2, 3]) [1, 3, 2, 4] = Inr [4, 6]"
proof (intro conjI impI)
  assume h: "np_take G (samples ts) = Inr g \<and> even (length g)"
  let ?a = "stride2 g" and ?b = "stride2 (drop 1 g)"
  have la: "length ?a = length g div 2" using h by (simp add: length_stride2)
  have lb: "length ?b = length g div 2" using h by (auto simp add: length_stride2 elim!: evenE)
  have r: "individual_genetic ts G = Inr (map2 (+) ?a ?b)"
    using h la lb by (simp add: individual_genetic_def np_add_def)
  have "map2 (+) ?a ?b ! i = g ! (2 * i) + g ! (2 * i + 1)" if "i < length g div 2" for i
  proof -
    have "?a ! i = g ! (2 * i)" using that la by (simp add: nth_stride2)
    moreover have "?b ! i = drop 1 g ! (2 * i)" using that lb by (simp add: nth_stride2)
    moreover have "drop 1 g ! (2 * i) = g ! (2 * i + 1)" using that h by (auto elim!: evenE)
    ultimately show ?thesis using that la lb by simp
  qed
  with r la lb show "\<exists>r. individual_genetic ts G = Inr r \<and> length r = length g div 2 \<and>
           (\<forall>i < length r. r ! i = g ! (2 * i) + g ! (2 * i + 1))" by simp
next
  show "individual_genetic (ts_samples [0, 1, 2, 3]) [1, 3, 2, 4] = Inr [4, 6]"
    by (simp add: individual_genetic_def np_add_def py_index_def py_pos_def ts_samples_def)
qed

theorem individual_genetic_sums_pairs_witness:
  "np_take [10, 20, 30, 40 :: real] (samples (ts_samples [3, 2, 1, 0])) = Inr [40, 30, 20, 10] \<and>
   even (length [40, 30, 20, 10 :: real]) \<and>
   individual_genetic (ts_samples [3, 2, 1, 0]) [10, 20, 30, 40] = Inr [70, 30]"
proof -
  have g: "np_take [10, 20, 30, 40 :: real] (samples (ts_samples [3, 2, 1, 0])) = Inr [40, 30, 20, 10]"
    by (simp add: py_index_def py_pos_def ts_samples_def)
  have e: "individual_genetic (ts_samples [3, 2, 1, 0]) [10, 20, 30, 40] = Inr [70, 30]"
    by (simp add: individual_genetic_def np_add_def py_index_def py_pos_def ts_samples_def)
  from individual_genetic_sums_pairs [of "[10, 20, 30, 40]" "ts_samples [3, 2, 1, 0]" "[40, 30, 20, 10]"]
    g e show ?thesis by simp
qed

text \<open>
  C7 (amended).  The source has no ploidy check and \<open>individual_genetic\<close>
  never fails with \<open>PloidyMismatchError\<close>.  When the number of gathered genome
  copies is odd and at least 5, the two slices differ in length by one and
  the numpy addition raises \<open>ValueError\<close>.
\<close>

theorem individual_genetic_odd_raises_value_error:
  "individual_genetic ts G \<noteq> Inl PloidyMismatchError \<and>
   (np_take G (samples ts) = Inr g \<and> odd (length g) \<and> 5 \<le> length g \<longrightarrow>
      individual_genetic ts G = Inl ValueError)"
proof (intro conjI impI)
  show "individual_genetic ts G \<noteq> Inl PloidyMismatchError"
    by (auto simp: individual_genetic_def split: sum.splits dest: np_add_error np_take_error)
next
  assume h: "np_take G (samples ts) = Inr g \<and> odd (length g) \<and> 5 \<le> length g"
  then obtain k where k: "length g = 2 * k + 1" by (auto elim: oddE)
  have la: "length (stride2 g) = k + 1" using k by (simp add: length_stride2)
  have lb: "length (stride2 (drop 1 g)) = k" using k by (simp add: length_stride2)
  from h k have "2 \<le> k" by simp
  with la lb h show "individual_genetic ts G = Inl ValueError"
    by (simp add: individual_genetic_def np_add_def)
qed

theorem individual_genetic_odd_raises_value_error_witness:
  "np_take [1, 2, 3, 4, 5 :: real] (samples (ts_samples [0, 1, 2, 3, 4])) = Inr [1, 2, 3, 4, 5] \<and>
   odd (length [1, 2, 3, 4, 5 :: real]) \<and> 5 \<le> length [1, 2, 3, 4, 5 :: real] \<and>
   individual_genetic (ts_samples [0, 1, 2, 3, 4]) [1, 2, 3, 4, 5] = Inl ValueError"
proof -
  have g: "np_take [1, 2, 3, 4, 5 :: real] (samples (ts_samples [0, 1, 2, 3, 4])) = Inr [1, 2, 3, 4, 5]"
    by (simp add: py_index_def py_pos_def ts_samples_def)
  from individual_genetic_odd_raises_value_error
    [of "ts_samples [0, 1, 2, 3, 4]" "[1, 2, 3, 4, 5]" "[1, 2, 3, 4, 5]"] g
  show ?thesis by simp
qed

text \<open>
  C7, the claim as stated fails: three genome copies \<open>[1, 2, 3]\<close> give the
  slices \<open>[1, 3]\<close> and \<open>[2]\<close>, numpy broadcasts the second, and the result is
  \<open>[3, 5]\<close>; one genome copy gives the empty array.
\<close>

theorem individual_genetic_odd_counterexample:
  "individual_genetic (ts_samples [0, 1, 2]) [1, 2, 3] = Inr [3, 5] \<and>
   individual_genetic (ts_samples [0]) [1] = Inr []"
  by (simp add: individual_genetic_def np_add_def py_index_def py_pos_def ts_samples_def)

section \<open>Termination of the enumerator\<close>

lemma edge_list_iff:
  "(u, v) \<in> set (edge_list xs) \<longleftrightarrow> 0 \<le> u \<and> u < int (length xs) \<and> v = xs ! nat u \<and> v \<noteq> - 1"
proof -
  have "(u, v) \<in> set (zip (map int [0..<length xs]) xs) \<longleftrightarrow>
        0 \<le> u \<and> u < int (length xs) \<and> v = xs ! nat u"
    by (auto simp: in_set_zip intro: exI [of _ "nat u"])
  then show ?thesis by (auto simp: edge_list_def)
qed

lemma finite_tree_edges: "finite (tree_edges lc rs)"
  by (simp add: tree_edges_def)

lemma py_index_valid: "0 \<le> i \<Longrightarrow> i < int (length xs) \<Longrightarrow> py_index xs i = Inr (xs ! nat i)"
  by (simp add: py_index_def py_pos_def)

lemma well_formed_nth:
  assumes "well_formed lc rs" "0 \<le> i" "i < int (length lc)"
  shows "- 1 \<le> lc ! nat i \<and> lc ! nat i < int (length lc) \<and>
         - 1 \<le> rs ! nat i \<and> rs ! nat i < int (length lc)"
  using assms by (auto simp: well_formed_def list_all_iff all_set_conv_all_nth)

text \<open>The inner loop returns on an acyclic sibling chain.\<close>

lemma push_siblings_returns:
  assumes wf: "well_formed lc rs" and ac: "acyclic (tree_edges lc rs)"
  shows "- 1 \<le> c \<Longrightarrow> c < int (length lc) \<Longrightarrow>
         \<exists>cs. (\<forall>st. push_siblings rs c st = Some (Inr (st @ cs))) \<and> distinct cs \<and>
              (\<forall>x\<in>set cs. 0 \<le> x \<and> x < int (length lc) \<and> (c, x) \<in> (set (edge_list rs))\<^sup>*) \<and>
              (c \<noteq> - 1 \<longrightarrow> c \<in> set cs)"
proof (induction c rule: wf_induct_rule [OF finite_acyclic_wf_converse [OF finite_tree_edges ac]])
  case (1 c)
  have len: "length rs = length lc" using wf by (simp add: well_formed_def)
  show ?case
  proof (cases "c = - 1")
    case True
    then have "\<forall>st. push_siblings rs c st = Some (Inr (st @ []))"
      by (simp add: push_siblings.simps)
    then show ?thesis using True by (intro exI [of _ "[]"]) simp
  next
    case False
    with 1 have c: "0 \<le> c" "c < int (length lc)" by auto
    let ?s = "rs ! nat c"
    have idx: "py_index rs c = Inr ?s" using c len by (simp add: py_index_valid)
    have s: "- 1 \<le> ?s" "?s < int (length lc)" using well_formed_nth [OF wf c] by auto
    show ?thesis
    proof (cases "?s = - 1")
      case True
      have "\<forall>st. push_siblings rs c st = Some (Inr (st @ [c]))"
      proof
        fix st
        have "push_siblings rs c st = push_siblings rs ?s (st @ [c])"
          using False idx by (subst push_siblings.simps) simp
        also have "\<dots> = Some (Inr (st @ [c]))"
          using True by (subst push_siblings.simps) simp
        finally show "push_siblings rs c st = Some (Inr (st @ [c]))" .
      qed
      then show ?thesis using c by (intro exI [of _ "[c]"]) simp
    next
      case s1: False
      have e: "(c, ?s) \<in> set (edge_list rs)" using c len s1 by (simp add: edge_list_iff)
      then have "(?s, c) \<in> (tree_edges lc rs)\<inverse>" by (simp add: tree_edges_def)
      from 1(1) [OF this s] obtain cs where
        cs: "\<forall>st. push_siblings rs ?s st = Some (Inr (st @ cs))" "distinct cs"
          "\<forall>x\<in>set cs. 0 \<le> x \<and> x < int (length lc) \<and> (?s, x) \<in> (set (edge_list rs))\<^sup>*"
        by blast
      have "\<forall>st. push_siblings rs c st = Some (Inr (st @ c # cs))"
      proof
        fix st
        have "push_siblings rs c st = push_siblings rs ?s (st @ [c])"
          using False idx by (subst push_siblings.simps) simp
        then show "push_siblings rs c st = Some (Inr (st @ c # cs))" using cs(1) by simp
      qed
      moreover have "c \<notin> set cs"
      proof
        assume "c \<in> set cs"
        with cs(3) have "(?s, c) \<in> (set (edge_list rs))\<^sup>*" by blast
        with e have "(c, c) \<in> (set (edge_list rs))\<^sup>+" by (rule rtrancl_into_trancl2)
        then have "(c, c) \<in> (tree_edges lc rs)\<^sup>+"
          by (rule trancl_mono) (simp add: tree_edges_def)
        with ac show False by (simp add: acyclic_def)
      qed
      moreover have "\<forall>x\<in>set (c # cs). 0 \<le> x \<and> x < int (length lc) \<and> (c, x) \<in> (set (edge_list rs))\<^sup>*"
        using cs(3) c e by (auto intro: converse_rtrancl_into_rtrancl)
      ultimately show ?thesis using cs(2) by (intro exI [of _ "c # cs"]) simp
    qed
  qed
qed


lemma children_of_facts:
  assumes wf: "well_formed lc rs" and ac: "acyclic (tree_edges lc rs)"
    and p: "0 \<le> p" "p < int (length lc)"
  shows "\<forall>st. push_siblings rs (lc ! nat p) st = Some (Inr (st @ children_of lc rs p))"
    and "distinct (children_of lc rs p)"
    and "\<forall>x\<in>set (children_of lc rs p).
           0 \<le> x \<and> x < int (length lc) \<and> (p, x) \<in> (tree_edges lc rs)\<^sup>+"
proof -
  let ?c = "lc ! nat p"
  have c: "- 1 \<le> ?c" "?c < int (length lc)" using well_formed_nth [OF wf p] by auto
  from push_siblings_returns [OF wf ac c] obtain cs where
    cs: "\<forall>st. push_siblings rs ?c st = Some (Inr (st @ cs))" "distinct cs"
      "\<forall>x\<in>set cs. 0 \<le> x \<and> x < int (length lc) \<and> (?c, x) \<in> (set (edge_list rs))\<^sup>*"
    by blast
  from cs(1) have "push_siblings rs ?c [] = Some (Inr cs)" by (metis append_Nil)
  then have eq: "children_of lc rs p = cs"
    using p by (simp add: children_of_def py_index_valid)
  show "\<forall>st. push_siblings rs ?c st = Some (Inr (st @ children_of lc rs p))"
    using cs(1) eq by simp
  show "distinct (children_of lc rs p)" using cs(2) eq by simp
  show "\<forall>x\<in>set (children_of lc rs p).
           0 \<le> x \<and> x < int (length lc) \<and> (p, x) \<in> (tree_edges lc rs)\<^sup>+"
  proof
    fix x assume "x \<in> set (children_of lc rs p)"
    then have x: "x \<in> set cs" using eq by simp
    have "?c \<noteq> - 1"
    proof
      assume "?c = - 1"
      then have "push_siblings rs ?c [] = Some (Inr [])" by (simp add: push_siblings.simps)
      with \<open>push_siblings rs ?c [] = Some (Inr cs)\<close> x show False by simp
    qed
    then have "(p, ?c) \<in> tree_edges lc rs" using p by (simp add: tree_edges_def edge_list_iff)
    moreover have "(?c, x) \<in> (tree_edges lc rs)\<^sup>*"
      using cs(3) x rtrancl_mono [of "set (edge_list rs)" "tree_edges lc rs"]
      by (auto simp: tree_edges_def)
    ultimately have "(p, x) \<in> (tree_edges lc rs)\<^sup>+" by (rule rtrancl_into_trancl2)
    with cs(3) x show "0 \<le> x \<and> x < int (length lc) \<and> (p, x) \<in> (tree_edges lc rs)\<^sup>+" by blast
  qed
qed

lemma no_shared_childrenD:
  assumes "no_shared_children lc rs" "0 \<le> p" "p < int (length lc)" "0 \<le> q" "q < int (length lc)"
    "p \<noteq> q"
  shows "set (children_of lc rs p) \<inter> set (children_of lc rs q) = {}"
proof -
  have "nat p \<in> set [0..<length lc]" "nat q \<in> set [0..<length lc]" "nat p \<noteq> nat q"
    using assms by auto
  with assms(1) have "set (children_of lc rs (int (nat p))) \<inter> set (children_of lc rs (int (nat q))) = {}"
    unfolding no_shared_children_def list_all_iff by blast
  with assms show ?thesis by simp
qed

lemma loops_return:
  assumes wf: "well_formed lc rs" and ac: "acyclic (tree_edges lc rs)"
    and nsc: "no_shared_children lc rs"
  shows "distinct (vis @ st) \<Longrightarrow>
     \<forall>x\<in>set vis \<union> set st. 0 \<le> x \<and> x < int (length lc) \<and> (x = r \<or> (r, x) \<in> (tree_edges lc rs)\<^sup>+) \<Longrightarrow>
     \<forall>x\<in>set vis \<union> set st. x \<noteq> r \<longrightarrow> (\<exists>p\<in>set vis. x \<in> set (children_of lc rs p)) \<Longrightarrow>
     \<exists>vs. visit_loop lc rs st vis = Some (Inr (vis @ vs)) \<and> distinct (vis @ vs) \<and>
        sample_loop lc rs st acc =
          Some (Inr (acc @ map (\<lambda>v. - 1) (filter (\<lambda>v. lc ! nat v = - 1) vs)))"
proof -
  let ?E = "tree_edges lc rs"
  let ?W = "inv_image (mult ((?E\<inverse>)\<^sup>+)) mset"
  have wfW: "wf ?W"
    by (intro wf_inv_image wf_mult wf_trancl finite_acyclic_wf_converse finite_tree_edges ac)
  show "distinct (vis @ st) \<Longrightarrow>
     \<forall>x\<in>set vis \<union> set st. 0 \<le> x \<and> x < int (length lc) \<and> (x = r \<or> (r, x) \<in> ?E\<^sup>+) \<Longrightarrow>
     \<forall>x\<in>set vis \<union> set st. x \<noteq> r \<longrightarrow> (\<exists>p\<in>set vis. x \<in> set (children_of lc rs p)) \<Longrightarrow>
     \<exists>vs. visit_loop lc rs st vis = Some (Inr (vis @ vs)) \<and> distinct (vis @ vs) \<and>
        sample_loop lc rs st acc =
          Some (Inr (acc @ map (\<lambda>v. - 1) (filter (\<lambda>v. lc ! nat v = - 1) vs)))"
  proof (induction st arbitrary: vis acc rule: wf_induct_rule [OF wfW])
    case (1 st)
    show ?case
    proof (cases "st = []")
      case True
      then show ?thesis using 1(2)
        by (simp add: visit_loop.simps sample_loop.simps)
    next
      case False
      define p where "p = last st"
      define st' where "st' = butlast st"
      have st: "st = st' @ [p]" using False by (simp add: p_def st'_def)
      have p: "0 \<le> p" "p < int (length lc)" using 1(3) st by auto
      have idx: "py_index lc p = Inr (lc ! nat p)" using p by (simp add: py_index_valid)
      note kids = children_of_facts [OF wf ac p]
      let ?cs = "children_of lc rs p"
      show ?thesis
      proof (cases "lc ! nat p = - 1")
        case True
        have less: "(st', st) \<in> ?W"
          using one_step_implies_mult [of "{#p#}" "{#}" "(?E\<inverse>)\<^sup>+" "mset st'"]
          by (simp add: st)
        have d: "distinct ((vis @ [p]) @ st')" using 1(2) st by auto
        have a: "\<forall>x\<in>set (vis @ [p]) \<union> set st'.
                   0 \<le> x \<and> x < int (length lc) \<and> (x = r \<or> (r, x) \<in> ?E\<^sup>+)"
          using 1(3) st by auto
        have b: "\<forall>x\<in>set (vis @ [p]) \<union> set st'.
                   x \<noteq> r \<longrightarrow> (\<exists>q\<in>set (vis @ [p]). x \<in> set (children_of lc rs q))"
          using 1(4) st by auto
        from 1(1) [OF less d a b, of "acc @ [- 1]"] obtain vs where
          "visit_loop lc rs st' (vis @ [p]) = Some (Inr ((vis @ [p]) @ vs))"
          "distinct ((vis @ [p]) @ vs)"
          "sample_loop lc rs st' (acc @ [- 1]) =
             Some (Inr ((acc @ [- 1]) @ map (\<lambda>v. - 1) (filter (\<lambda>v. lc ! nat v = - 1) vs)))"
          by blast
        moreover have "visit_loop lc rs st vis = visit_loop lc rs st' (vis @ [p])"
          using False idx True by (subst visit_loop.simps) (simp add: p_def st'_def)
        moreover have "sample_loop lc rs st acc = sample_loop lc rs st' (acc @ [- 1])"
          using False idx True by (subst sample_loop.simps) (simp add: p_def st'_def)
        ultimately show ?thesis using True by (intro exI [of _ "p # vs"]) simp
      next
        case internal: False
        have push: "push_siblings rs (lc ! nat p) st' = Some (Inr (st' @ ?cs))"
          using kids(1) by blast
        have less: "(st' @ ?cs, st) \<in> ?W"
        proof -
          have "\<forall>k\<in>set_mset (mset ?cs). \<exists>j\<in>set_mset {#p#}. (k, j) \<in> (?E\<inverse>)\<^sup>+"
            using kids(3) by (auto simp: trancl_converse)
          from one_step_implies_mult [OF _ this, of "mset st'"]
          show ?thesis by (simp add: st)
        qed
        have fresh: "x \<notin> set vis \<union> set st' \<union> {p}" if x: "x \<in> set ?cs" for x
        proof
          assume mem: "x \<in> set vis \<union> set st' \<union> {p}"
          from kids(3) x have px: "(p, x) \<in> ?E\<^sup>+" and xr: "0 \<le> x" "x < int (length lc)" by auto
          have "x \<noteq> p" using px ac by (auto simp: acyclic_def)
          have "x \<noteq> r"
          proof
            assume "x = r"
            from 1(3) st have "p = r \<or> (r, p) \<in> ?E\<^sup>+" by auto
            with px \<open>x = r\<close> have "(r, r) \<in> ?E\<^sup>+" by auto
            with ac show False by (simp add: acyclic_def)
          qed
          with mem \<open>x \<noteq> p\<close> 1(4) st obtain q where q: "q \<in> set vis" "x \<in> set (children_of lc rs q)"
            by auto
          from q(1) 1(3) have qr: "0 \<le> q" "q < int (length lc)" by auto
          from q(1) 1(2) st have "q \<noteq> p" by auto
          from no_shared_childrenD [OF nsc qr p this] q(2) x show False by auto
        qed
        have d: "distinct ((vis @ [p]) @ (st' @ ?cs))"
          using 1(2) st kids(2) fresh by auto
        have rp: "p = r \<or> (r, p) \<in> ?E\<^sup>+" using 1(3) st by auto
        have a: "\<forall>x\<in>set (vis @ [p]) \<union> set (st' @ ?cs).
                   0 \<le> x \<and> x < int (length lc) \<and> (x = r \<or> (r, x) \<in> ?E\<^sup>+)"
        proof
          fix x assume "x \<in> set (vis @ [p]) \<union> set (st' @ ?cs)"
          then consider "x \<in> set vis \<union> set st" | "x \<in> set ?cs" using st by auto
          then show "0 \<le> x \<and> x < int (length lc) \<and> (x = r \<or> (r, x) \<in> ?E\<^sup>+)"
          proof cases
            case 1
            then show ?thesis using \<open>\<forall>x\<in>set vis \<union> set st. 0 \<le> x \<and> x < int (length lc) \<and> (x = r \<or> (r, x) \<in> ?E\<^sup>+)\<close> by blast
          next
            case 2
            with kids(3) have "(p, x) \<in> ?E\<^sup>+" "0 \<le> x" "x < int (length lc)" by auto
            with rp show ?thesis by (auto intro: trancl_trans)
          qed
        qed
        have b: "\<forall>x\<in>set (vis @ [p]) \<union> set (st' @ ?cs).
                   x \<noteq> r \<longrightarrow> (\<exists>q\<in>set (vis @ [p]). x \<in> set (children_of lc rs q))"
          using 1(4) st by auto
        from 1(1) [OF less d a b, of acc] obtain vs where
          "visit_loop lc rs (st' @ ?cs) (vis @ [p]) = Some (Inr ((vis @ [p]) @ vs))"
          "distinct ((vis @ [p]) @ vs)"
          "sample_loop lc rs (st' @ ?cs) acc =
             Some (Inr (acc @ map (\<lambda>v. - 1) (filter (\<lambda>v. lc ! nat v = - 1) vs)))"
          by blast
        moreover have "visit_loop lc rs st vis = visit_loop lc rs (st' @ ?cs) (vis @ [p])"
          using False idx internal push by (subst visit_loop.simps) (simp add: p_def st'_def)
        moreover have "sample_loop lc rs st acc = sample_loop lc rs (st' @ ?cs) acc"
          using False idx internal push by (subst sample_loop.simps) (simp add: p_def st'_def)
        ultimately show ?thesis using internal by (intro exI [of _ "p # vs"]) simp
      qed
    qed
  qed
qed

text \<open>
  C8.  On arrays of equal length whose entries are node ids or the null id,
  with no node reachable from itself along \<open>left_child\<close> and \<open>right_sib\<close> and
  no node among the children of two different nodes, the enumerator started
  at any node returns, the nodes it pops from the stack are pairwise
  different, and its result has one entry for each leaf it popped.
\<close>

theorem enumerator_terminates_without_revisit:
  assumes "well_formed lc rs" and "acyclic (tree_edges lc rs)" and "no_shared_children lc rs"
    and "0 \<le> r" and "r < int (length lc)"
  shows "\<exists>vs. visited_nodes r lc rs = Some (Inr vs) \<and> distinct vs \<and>
           obtain_sample_nodes r lc rs =
             Some (Inr (map (\<lambda>v. - 1) (filter (\<lambda>v. lc ! nat v = - 1) vs)))"
  using loops_return [OF assms(1-3), of "[]" "[r]" r "[]"] assms(4,5)
  by (simp add: visited_nodes_def obtain_sample_nodes_def)

theorem enumerator_terminates_without_revisit_witness:
  "well_formed (left_child_array nested) (right_sib_array nested) \<and>
   acyclic (tree_edges (left_child_array nested) (right_sib_array nested)) \<and>
   no_shared_children (left_child_array nested) (right_sib_array nested) \<and>
   visited_nodes 4 (left_child_array nested) (right_sib_array nested) = Some (Inr [4, 2, 3, 1, 0]) \<and>
   distinct [4, 2, 3, 1, 0 :: int] \<and>
   obtain_sample_nodes 4 (left_child_array nested) (right_sib_array nested)
     = Some (Inr [- 1, - 1, - 1])"
proof -
  let ?lc = "left_child_array nested" and ?rs = "right_sib_array nested"
  have w: "well_formed ?lc ?rs"
    by (simp add: well_formed_def nested_def)
  have n: "no_shared_children ?lc ?rs"
    by code_simp
  have e: "tree_edges ?lc ?rs = {(3, 0), (4, 3), (0, 1), (3, 2)}"
    by (auto simp: tree_edges_def edge_list_def nested_def upt_rec)
  have a: "acyclic (tree_edges ?lc ?rs)"
    unfolding e
    by (rule acyclicI_order
          [where f = "\<lambda>x::int. if x = 4 then 3 else if x = 3 then 2 else if x = 0 then 1 else (0::nat)"])
       auto
  have v: "visited_nodes 4 ?lc ?rs = Some (Inr [4, 2, 3, 1, 0])"
    by (simp add: visited_nodes_def visit_loop.simps push_siblings.simps py_index_def py_pos_def
        nested_def)
  have "4 < int (length ?lc)" by (simp add: nested_def)
  from enumerator_terminates_without_revisit [OF w a n _ this] v
  have "distinct [4, 2, 3, 1, 0 :: int] \<and>
    obtain_sample_nodes 4 ?lc ?rs = Some (Inr (map (\<lambda>v. - 1) (filter (\<lambda>v. ?lc ! nat v = - 1) [4, 2, 3, 1, 0])))"
    by simp
  then have "obtain_sample_nodes 4 ?lc ?rs = Some (Inr [- 1, - 1, - 1])"
    by (simp add: nested_def)
  with w a n v show ?thesis by simp
qed

end
